theory Spec2Isabelle
  imports Complex_Main
begin

section \<open>Data model of \<open>my_serial_plot.py\<close>\<close>

text \<open>
  The script keeps its state in module globals: \<open>data_dict\<close> (one list of floats per
  metric name, in the insertion order of the dict literal), the worksheet \<open>ws\<close>, the flag
  \<open>paused\<close>, and the axis limits it sets on the plot. \<open>ws\<close> is the list of the rows in
  sheet order: \<open>ws.append\<close> moves the sheet's current row on by one and puts the cells of
  its argument there, so an empty list leaves a blank row, which the list holds as \<open>[]\<close>
  (a blank row below the last row with cells leaves no trace in the saved file). The model
  collects the globals in one record and passes it through every function. What \<open>print\<close>
  writes is kept as a list of reports.

  A decoded line is a \<open>string\<close>; an 8-bit character stands for the code point of the
  same number.

  A Python float is a finite value, one of the two infinities, or a NaN. The finite values
  are taken as reals: the properties below are about which values are stored where, not
  about rounding. The comparisons are those of the floats: every comparison with a NaN is
  false, also \<open>==\<close>. Adding a finite number to a float that is not finite leaves it as
  it is.
\<close>

datatype pyfloat = Fin real | PosInf | NegInf | NaN

fun is_finite :: "pyfloat \<Rightarrow> bool" where
  "is_finite (Fin a) = True"
| "is_finite PosInf = False"
| "is_finite NegInf = False"
| "is_finite NaN = False"

fun float_lt :: "pyfloat \<Rightarrow> pyfloat \<Rightarrow> bool" where
  "float_lt (Fin a) (Fin b) = (a < b)"
| "float_lt (Fin a) PosInf = True"
| "float_lt NegInf (Fin b) = True"
| "float_lt NegInf PosInf = True"
| "float_lt x y = False"

fun float_eq :: "pyfloat \<Rightarrow> pyfloat \<Rightarrow> bool" where
  "float_eq NaN y = False"
| "float_eq x NaN = False"
| "float_eq x y = (x = y)"

fun float_add :: "pyfloat \<Rightarrow> real \<Rightarrow> pyfloat" where
  "float_add (Fin a) d = Fin (a + d)"
| "float_add PosInf d = PosInf"
| "float_add NegInf d = NegInf"
| "float_add NaN d = NaN"

datatype error = ValueError | UnicodeDecodeError | KeyError

datatype raw_line = Undecodable | Decoded string

datatype cell = Str string | Num pyfloat

datatype report = DataParseError error | OtherError error

record state =
  data_dict :: "(string \<times> pyfloat list) list"
  ws :: "cell list list"
  paused :: bool
  printed :: "report list"
  xlim :: "(real \<times> real) option"
  ylim :: "(pyfloat \<times> pyfloat) option"

definition MAX_POINTS :: nat where
  "MAX_POINTS = 100"

definition init_data_dict :: "(string \<times> pyfloat list) list" where
  "init_data_dict = [(''current_speed'', []), (''current_duty'', []), (''target_speed'', [])]"

text \<open>The state after the module's top level has run: the header row is already in the
  sheet (line 36), nothing is stored, nothing is paused.\<close>

definition init_state :: state where
  "init_state = \<lparr> data_dict = init_data_dict,
                  ws = [map Str (map fst init_data_dict)],
                  paused = False, printed = [], xlim = None, ylim = None \<rparr>"

section \<open>Strings and dicts as Python has them\<close>

text \<open>\<open>str.strip()\<close> removes the characters for which \<open>str.isspace\<close> holds; below
  U+0100 these are the ones listed.\<close>

definition is_space :: "char \<Rightarrow> bool" where
  "is_space c = (c \<in> set [CHR 0x09, CHR 0x0A, CHR 0x0B, CHR 0x0C, CHR 0x0D,
                            CHR 0x1C, CHR 0x1D, CHR 0x1E, CHR 0x1F, CHR 0x20,
                            CHR 0x85, CHR 0xA0])"

definition strip :: "string \<Rightarrow> string" where
  "strip s = rev (dropWhile is_space (rev (dropWhile is_space s)))"

text \<open>\<open>s.split(c)\<close>: the pieces between the occurrences of \<open>c\<close>, empty pieces kept.\<close>

fun split_on :: "char \<Rightarrow> string \<Rightarrow> string list" where
  "split_on c [] = [[]]"
| "split_on c (x # xs) =
     (if x = c then [] # split_on c xs
      else (case split_on c xs of [] \<Rightarrow> [[x]] | w # rest \<Rightarrow> (x # w) # rest))"

text \<open>\<open>key, value = entry.split(c, 1)\<close>: the unpacking raises ValueError when \<open>c\<close>
  does not occur.\<close>

definition split_first :: "char \<Rightarrow> string \<Rightarrow> error + (string \<times> string)" where
  "split_first c s =
     (if c \<in> set s
      then Inr (takeWhile (\<lambda>x. x \<noteq> c) s, tl (dropWhile (\<lambda>x. x \<noteq> c) s))
      else Inl ValueError)"

text \<open>\<open>d[k] = v\<close> on an insertion-ordered dict: an existing key keeps its place.\<close>

fun dict_set :: "('k \<times> 'v) list \<Rightarrow> 'k \<Rightarrow> 'v \<Rightarrow> ('k \<times> 'v) list" where
  "dict_set [] k v = [(k, v)]"
| "dict_set ((k', v') # d) k v =
     (if k' = k then (k, v) # d else (k', v') # dict_set d k v)"

text \<open>\<open>d[k]\<close>: KeyError when the key is absent.\<close>

definition dict_get :: "(string \<times> 'v) list \<Rightarrow> string \<Rightarrow> error + 'v" where
  "dict_get d k = (case map_of d k of None \<Rightarrow> Inl KeyError | Some v \<Rightarrow> Inr v)"

section \<open>The ingestion loop of \<open>update_plot\<close>\<close>

text \<open>
  The builtin \<open>float\<close> is a parameter \<open>pf\<close> of the model: \<open>pf s = None\<close> stands for
  \<open>float(s)\<close> raising ValueError.

  Lines 130 to 138: the loop over the entries of one line. \<open>temp\<close> is \<open>temp_data\<close>.
  \<open>float\<close> is called before the key is looked up, so a value that does not parse raises
  whatever its key is.
\<close>

fun parse_entries ::
  "(string \<Rightarrow> pyfloat option) \<Rightarrow> string list \<Rightarrow> (string \<times> pyfloat) list \<Rightarrow> string list
     \<Rightarrow> error + (string \<times> pyfloat) list" where
  "parse_entries pf keys temp [] = Inr temp"
| "parse_entries pf keys temp (entry # entries) =
     (if CHR '':'' \<in> set entry then
        (case split_first CHR '':'' entry of
           Inl e \<Rightarrow> Inl e
         | Inr (k, v) \<Rightarrow>
             (case pf (strip v) of
                None \<Rightarrow> Inl ValueError
              | Some x \<Rightarrow>
                  if strip k \<in> set keys
                  then parse_entries pf keys (dict_set temp (strip k) x) entries
                  else parse_entries pf keys temp entries))
      else parse_entries pf keys temp entries)"

definition parse_line ::
  "(string \<Rightarrow> pyfloat option) \<Rightarrow> string list \<Rightarrow> string \<Rightarrow> error + (string \<times> pyfloat) list" where
  "parse_line pf keys line = parse_entries pf keys [] (split_on CHR '','' line)"

text \<open>Lines 142 to 145 for one buffer: append, then drop the oldest value when the
  list has grown past \<open>MAX_POINTS\<close>.\<close>

definition push_point :: "pyfloat list \<Rightarrow> pyfloat \<Rightarrow> pyfloat list" where
  "push_point buf v = (let b = buf @ [v] in if length b > MAX_POINTS then tl b else b)"

text \<open>Lines 140 to 145: the loop over \<open>temp_data.items()\<close>. It returns the error raised
  (if any) together with the dict and the row as they are at that moment, since the
  lists are changed in place.\<close>

fun store_loop ::
  "(string \<times> pyfloat list) list \<Rightarrow> pyfloat list \<Rightarrow> (string \<times> pyfloat) list
     \<Rightarrow> error option \<times> (string \<times> pyfloat list) list \<times> pyfloat list" where
  "store_loop dd row_data [] = (None, dd, row_data)"
| "store_loop dd row_data ((k, v) # temp) =
     (case dict_get dd k of
        Inl e \<Rightarrow> (Some e, dd, row_data)
      | Inr buf \<Rightarrow> store_loop (dict_set dd k (push_point buf v)) (row_data @ [v]) temp)"

text \<open>The body of the \<open>try\<close> (lines 126 to 147) on one line of the transport: the
  error raised, if any, and the state it leaves.\<close>

definition line_body ::
  "(string \<Rightarrow> pyfloat option) \<Rightarrow> state \<Rightarrow> raw_line \<Rightarrow> error option \<times> state" where
  "line_body pf s l =
     (case l of
        Undecodable \<Rightarrow> (Some UnicodeDecodeError, s)
      | Decoded raw \<Rightarrow>
          (let line = strip raw in
           if line = [] then (None, s)
           else
             (case parse_line pf (map fst (data_dict s)) line of
                Inl e \<Rightarrow> (Some e, s)
              | Inr temp \<Rightarrow>
                  (case store_loop (data_dict s) [] temp of
                     (Some e, dd, row_data) \<Rightarrow> (Some e, s\<lparr>data_dict := dd\<rparr>)
                   | (None, dd, row_data) \<Rightarrow>
                       (None, s\<lparr>data_dict := dd, ws := ws s @ [map Num row_data]\<rparr>)))))"

text \<open>The two \<open>except\<close> clauses (lines 148 to 151): UnicodeDecodeError is a subclass of
  ValueError; each clause prints and the loop goes on. \<open>print\<close> is taken to succeed.\<close>

definition handle_exc :: "error option \<times> state \<Rightarrow> state" where
  "handle_exc r =
     (case r of
        (None, s) \<Rightarrow> s
      | (Some e, s) \<Rightarrow>
          (if e = ValueError \<or> e = UnicodeDecodeError
           then s\<lparr>printed := printed s @ [DataParseError e]\<rparr>
           else s\<lparr>printed := printed s @ [OtherError e]\<rparr>))"

text \<open>The \<open>while ser.in_waiting\<close> loop, over the lines the transport holds at this tick.\<close>

fun ingest :: "(string \<Rightarrow> pyfloat option) \<Rightarrow> state \<Rightarrow> raw_line list \<Rightarrow> state" where
  "ingest pf s [] = s"
| "ingest pf s (l # ls) = ingest pf (handle_exc (line_body pf s l)) ls"

section \<open>The axis limits (lines 154 to 162)\<close>

text \<open>Python compares lists lexicographically: the first position at which the items
  are not \<open>==\<close> decides, by \<open><\<close> on the items there.\<close>

fun list_lt :: "pyfloat list \<Rightarrow> pyfloat list \<Rightarrow> bool" where
  "list_lt [] [] = False"
| "list_lt [] (y # ys) = True"
| "list_lt (x # xs) [] = False"
| "list_lt (x # xs) (y # ys) = (if float_eq x y then list_lt xs ys else float_lt x y)"

text \<open>\<open>min(iterable)\<close> keeps the first of the smallest items and raises ValueError on an
  empty iterable; \<open>max\<close> likewise with \<open>>\<close>. \<open>lt a b\<close> is \<open>a < b\<close>.\<close>

definition py_min :: "('a \<Rightarrow> 'a \<Rightarrow> bool) \<Rightarrow> 'a list \<Rightarrow> error + 'a" where
  "py_min lt xs =
     (case xs of
        [] \<Rightarrow> Inl ValueError
      | x # r \<Rightarrow> Inr (foldl (\<lambda>best item. if lt item best then item else best) x r))"

definition py_max :: "('a \<Rightarrow> 'a \<Rightarrow> bool) \<Rightarrow> 'a list \<Rightarrow> error + 'a" where
  "py_max lt xs =
     (case xs of
        [] \<Rightarrow> Inl ValueError
      | x # r \<Rightarrow> Inr (foldl (\<lambda>best item. if lt best item then item else best) x r))"

text \<open>\<open>min(min(data_dict[key] for key in data_dict), default=0) - 10\<close>: the inner call
  takes the smallest of the lists, the outer one the smallest value of that list.\<close>

definition y_min :: "(string \<times> pyfloat list) list \<Rightarrow> error + pyfloat" where
  "y_min dd =
     (case py_min list_lt (map snd dd) of
        Inl e \<Rightarrow> Inl e
      | Inr l \<Rightarrow>
          Inr (float_add (case py_min float_lt l of Inl e \<Rightarrow> Fin 0 | Inr m \<Rightarrow> m) (- 10)))"

definition y_max :: "(string \<times> pyfloat list) list \<Rightarrow> error + pyfloat" where
  "y_max dd =
     (case py_max list_lt (map snd dd) of
        Inl e \<Rightarrow> Inl e
      | Inr l \<Rightarrow>
          Inr (float_add (case py_max float_lt l of Inl e \<Rightarrow> Fin 0 | Inr m \<Rightarrow> m) 10))"

text \<open>
  The loop over \<open>lines.items()\<close>; \<open>lines\<close> was filled from \<open>data_dict.keys()\<close> (line 61)
  and has the same keys in the same order. Of what the loop does, the model keeps the axis
  limits; handing the points to the plot (\<open>set_data\<close>), the visibility flags and the
  drawing of the canvas read the state and do not change it.

  \<open>ax.set_ylim\<close> raises ValueError when a limit is an infinity or a NaN. The loop is not
  inside a \<open>try\<close>: the error leaves \<open>update_plot\<close>. As for the body of the \<open>try\<close>, the
  result is the error raised (if any) and the state at that moment; \<open>set_xlim\<close> has been
  called by then.
\<close>

fun render_loop :: "state \<Rightarrow> string list \<Rightarrow> error option \<times> state" where
  "render_loop s [] = (None, s)"
| "render_loop s (key # keys) =
     (case dict_get (data_dict s) key of
        Inl e \<Rightarrow> (Some e, s)
      | Inr y_data \<Rightarrow>
          if y_data \<noteq> [] then
            (let s1 = s\<lparr>xlim := Some (0, real MAX_POINTS)\<rparr> in
             case y_min (data_dict s) of
               Inl e \<Rightarrow> (Some e, s1)
             | Inr lo \<Rightarrow>
                 (case y_max (data_dict s) of
                    Inl e \<Rightarrow> (Some e, s1)
                  | Inr hi \<Rightarrow>
                      if is_finite lo \<and> is_finite hi
                      then render_loop (s1\<lparr>ylim := Some (lo, hi)\<rparr>) keys
                      else (Some ValueError, s1)))
          else render_loop s keys)"

section \<open>One tick, and the program as a sequence of events\<close>

text \<open>\<open>update_plot\<close>: the error that leaves the call, if any, and the state after it.\<close>

definition update_plot ::
  "(string \<Rightarrow> pyfloat option) \<Rightarrow> state \<Rightarrow> raw_line list \<Rightarrow> error option \<times> state" where
  "update_plot pf s ls =
     (if paused s then (None, s)
      else (let s' = ingest pf s ls in render_loop s' (map fst (data_dict s'))))"

definition pause :: "state \<Rightarrow> state" where
  "pause s = s\<lparr>paused := True\<rparr>"

definition resume :: "state \<Rightarrow> state" where
  "resume s = s\<lparr>paused := False\<rparr>"

text \<open>
  The event loop calls \<open>update_plot\<close> (with the lines the transport holds at that
  moment), \<open>pause\<close> and \<open>resume\<close>. \<open>run\<close> gives the errors that left these calls, in
  order, and the state after the last call. What the event loop does with such an error is
  not in the script; the state after a call that raised is the state \<open>run\<close> gives for the
  calls up to it.
\<close>

datatype event = Tick "raw_line list" | Pause | Resume

fun step :: "(string \<Rightarrow> pyfloat option) \<Rightarrow> state \<Rightarrow> event \<Rightarrow> error option \<times> state" where
  "step pf s (Tick ls) = update_plot pf s ls"
| "step pf s Pause = (None, pause s)"
| "step pf s Resume = (None, resume s)"

fun run :: "(string \<Rightarrow> pyfloat option) \<Rightarrow> state \<Rightarrow> event list \<Rightarrow> error list \<times> state" where
  "run pf s [] = ([], s)"
| "run pf s (e # es) =
     (case step pf s e of
        (r, s') \<Rightarrow>
          (case run pf s' es of
             (errs, s'') \<Rightarrow> ((case r of None \<Rightarrow> [] | Some x \<Rightarrow> [x]) @ errs, s'')))"

text \<open>The lines that the ticks of an event sequence read, in order: a tick reads its
  lines unless the flag \<open>paused\<close> (\<open>p\<close>) is set at that moment.\<close>

fun consumed :: "bool \<Rightarrow> event list \<Rightarrow> raw_line list" where
  "consumed p [] = []"
| "consumed p (Tick ls # es) = (if p then [] else ls) @ consumed p es"
| "consumed p (Pause # es) = consumed True es"
| "consumed p (Resume # es) = consumed False es"

section \<open>A decimal reader for concrete lines\<close>

text \<open>
  \<open>float_dec\<close> reads an optional sign followed by digits with an optional fraction, or
  by \<open>inf\<close> or \<open>nan\<close>: a part of what \<open>float\<close> accepts. It is used below on \<open>abc\<close>
  and \<open>x\<close>, which \<open>float\<close> rejects as well, on \<open>inf\<close>, and on short decimal strings whose
  value a float holds exactly, where \<open>float\<close> gives the same value.
\<close>

definition digit_of :: "char \<Rightarrow> nat option" where
  "digit_of c =
     map_of [(CHR ''0'', 0), (CHR ''1'', 1), (CHR ''2'', 2), (CHR ''3'', 3), (CHR ''4'', 4),
             (CHR ''5'', 5), (CHR ''6'', 6), (CHR ''7'', 7), (CHR ''8'', 8), (CHR ''9'', 9)] c"

fun digits_val :: "nat \<Rightarrow> string \<Rightarrow> nat option" where
  "digits_val acc [] = Some acc"
| "digits_val acc (c # cs) =
     (case digit_of c of None \<Rightarrow> None | Some d \<Rightarrow> digits_val (10 * acc + d) cs)"

definition float_dec :: "string \<Rightarrow> pyfloat option" where
  "float_dec s =
     (let (neg, body) =
            (case s of
               [] \<Rightarrow> (False, [])
             | c # r \<Rightarrow>
                 if c = CHR ''-'' then (True, r)
                 else if c = CHR ''+'' then (False, r) else (False, s));
          ip = takeWhile (\<lambda>x. x \<noteq> CHR ''.'') body;
          fp = (case dropWhile (\<lambda>x. x \<noteq> CHR ''.'') body of [] \<Rightarrow> [] | d # f \<Rightarrow> f)
      in if body = ''inf'' then Some (if neg then NegInf else PosInf)
         else if body = ''nan'' then Some NaN
         else if ip = [] \<and> fp = [] then None
         else
           (case (digits_val 0 ip, digits_val 0 fp) of
              (Some i, Some f) \<Rightarrow>
                Some (Fin ((if neg then - 1 else 1) * (real i + real f / 10 ^ length fp)))
            | _ \<Rightarrow> None))"

section \<open>Notions of the specification\<close>

text \<open>
  The definitions of this section are not code of the script: they say, in the words of
  the specification, what the theorems below compare the code with.

  The most recent \<open>n\<close> values of a sequence, in arrival order.
\<close>

definition lastn :: "nat \<Rightarrow> 'a list \<Rightarrow> 'a list" where
  "lastn n xs = drop (length xs - n) xs"

text \<open>The values accepted for metric \<open>m\<close>: a line contributes the value its
  \<open>temp_data\<close> holds for \<open>m\<close> when it decodes, is not blank and parses; the lines of a
  sequence contribute in their order.\<close>

definition line_values ::
  "(string \<Rightarrow> pyfloat option) \<Rightarrow> string list \<Rightarrow> string \<Rightarrow> raw_line \<Rightarrow> pyfloat list" where
  "line_values pf keys m l =
     (case l of
        Undecodable \<Rightarrow> []
      | Decoded raw \<Rightarrow>
          if strip raw = [] then []
          else (case parse_line pf keys (strip raw) of
                  Inl e \<Rightarrow> []
                | Inr temp \<Rightarrow> (case map_of temp m of None \<Rightarrow> [] | Some v \<Rightarrow> [v])))"

definition accepted_values ::
  "(string \<Rightarrow> pyfloat option) \<Rightarrow> string list \<Rightarrow> string \<Rightarrow> raw_line list \<Rightarrow> pyfloat list" where
  "accepted_values pf keys m ls = concat (map (line_values pf keys m) ls)"

text \<open>The recognized (key, value) pair a fragment carries, if any, and the pairs of a
  line in the order in which the line presents them.\<close>

definition entry_pair ::
  "(string \<Rightarrow> pyfloat option) \<Rightarrow> string list \<Rightarrow> string \<Rightarrow> (string \<times> pyfloat) list" where
  "entry_pair pf keys entry =
     (case split_first CHR '':'' entry of
        Inl e \<Rightarrow> []
      | Inr (k, v) \<Rightarrow>
          (case pf (strip v) of
             None \<Rightarrow> []
           | Some x \<Rightarrow> if strip k \<in> set keys then [(strip k, x)] else []))"

definition line_pairs ::
  "(string \<Rightarrow> pyfloat option) \<Rightarrow> string list \<Rightarrow> string \<Rightarrow> (string \<times> pyfloat) list" where
  "line_pairs pf keys line = concat (map (entry_pair pf keys) (split_on CHR '','' line))"

text \<open>The elements of a list in the order of their first occurrences.\<close>

definition first_seen :: "'a list \<Rightarrow> 'a list" where
  "first_seen xs = rev (remdups (rev xs))"

text \<open>A row in encounter order: one value per metric named by the pairs, the metrics in
  the order in which they first occur, each with the last value given for it.\<close>

definition encounter_row :: "(string \<times> pyfloat) list \<Rightarrow> pyfloat list" where
  "encounter_row ps = List.map_filter (map_of (rev ps)) (first_seen (map fst ps))"

text \<open>A row in the fixed ordering of the metric names: the values of the candidate set
  in the order of \<open>keys\<close>.\<close>

definition fixed_order_row :: "string list \<Rightarrow> (string \<times> pyfloat) list \<Rightarrow> pyfloat list" where
  "fixed_order_row keys temp = List.map_filter (map_of temp) keys"

section \<open>Evaluation on concrete lines\<close>

lemmas eval_defs = init_state_def init_data_dict_def is_space_def strip_def split_first_def
  dict_get_def parse_line_def push_point_def line_body_def handle_exc_def py_min_def py_max_def
  y_min_def y_max_def update_plot_def float_dec_def digit_of_def MAX_POINTS_def Let_def

section \<open>Dicts, the parser and the store loop\<close>

lemma dict_set_keys:
  "map fst (dict_set d k v) = (if k \<in> set (map fst d) then map fst d else map fst d @ [k])"
  by (induction d) force+

lemma map_of_dict_set: "map_of (dict_set d k v) = (map_of d)(k \<mapsto> v)"
  by (induction d) (auto simp: fun_eq_iff)

lemma dict_get_member:
  "k \<in> set (map fst d) \<Longrightarrow> \<exists>b. dict_get d k = Inr b \<and> map_of d k = Some b"
  by (cases "map_of d k") (auto simp: dict_get_def map_of_eq_None_iff)

lemma parse_entries_error: "parse_entries pf keys temp es = Inl e \<Longrightarrow> e = ValueError"
  by (induction es arbitrary: temp)
     (auto simp: split_first_def split: if_splits option.splits)

lemma parse_entries_Cons:
  assumes "parse_entries pf keys temp (entry # es) = Inr t"
  shows "parse_entries pf keys temp es = Inr t
       \<or> (\<exists>k x. k \<in> set keys \<and> parse_entries pf keys (dict_set temp k x) es = Inr t)"
  using assms by (auto simp: split_first_def split: if_splits option.splits)

lemma parse_entries_keys:
  "parse_entries pf keys temp es = Inr t \<Longrightarrow> set (map fst t) \<subseteq> set (map fst temp) \<union> set keys"
proof (induction es arbitrary: temp)
  case Nil
  then show ?case by simp
next
  case (Cons entry es)
  from parse_entries_Cons [OF Cons.prems] show ?case
  proof
    assume "parse_entries pf keys temp es = Inr t"
    then show ?thesis by (rule Cons.IH)
  next
    assume "\<exists>k x. k \<in> set keys \<and> parse_entries pf keys (dict_set temp k x) es = Inr t"
    then obtain k x where k: "k \<in> set keys"
      and r: "parse_entries pf keys (dict_set temp k x) es = Inr t" by blast
    from Cons.IH [OF r] have "set (map fst t) \<subseteq> set (map fst (dict_set temp k x)) \<union> set keys" .
    moreover have "set (map fst (dict_set temp k x)) \<subseteq> set (map fst temp) \<union> {k}"
      by (auto simp: dict_set_keys split: if_splits)
    ultimately show ?thesis using k by blast
  qed
qed

lemma parse_entries_distinct:
  "parse_entries pf keys temp es = Inr t \<Longrightarrow> distinct (map fst temp) \<Longrightarrow> distinct (map fst t)"
proof (induction es arbitrary: temp)
  case Nil
  then show ?case by simp
next
  case (Cons entry es)
  from parse_entries_Cons [OF Cons.prems(1)] show ?case
  proof
    assume "parse_entries pf keys temp es = Inr t"
    then show ?thesis using Cons.prems(2) by (rule Cons.IH)
  next
    assume "\<exists>k x. k \<in> set keys \<and> parse_entries pf keys (dict_set temp k x) es = Inr t"
    then obtain k x where r: "parse_entries pf keys (dict_set temp k x) es = Inr t" by blast
    have "distinct (map fst (dict_set temp k x))"
      using Cons.prems(2) by (simp add: dict_set_keys)
    with r show ?thesis by (rule Cons.IH)
  qed
qed

lemma store_loop_ok:
  "set (map fst temp) \<subseteq> set (map fst dd) \<Longrightarrow>
     \<exists>dd'. store_loop dd row_data temp = (None, dd', row_data @ map snd temp)
          \<and> map fst dd' = map fst dd"
proof (induction temp arbitrary: dd row_data)
  case Nil
  then show ?case by simp
next
  case (Cons p temp)
  obtain k v where p: "p = (k, v)" by (cases p)
  with Cons.prems have k: "k \<in> set (map fst dd)" by simp
  then obtain buf where buf: "dict_get dd k = Inr buf"
    using dict_get_member by blast
  let ?dd = "dict_set dd k (push_point buf v)"
  have keys: "map fst ?dd = map fst dd"
    using k by (simp add: dict_set_keys)
  with Cons.prems p have "set (map fst temp) \<subseteq> set (map fst ?dd)" by simp
  from Cons.IH [OF this, of "row_data @ [v]"] keys p buf show ?case by auto
qed

section \<open>The parser: one bad value fails the whole line\<close>

lemma parse_entries_bad_value:
  "entry \<in> set es \<Longrightarrow> split_first CHR '':'' entry = Inr (k, v) \<Longrightarrow> pf (strip v) = None
     \<Longrightarrow> parse_entries pf keys temp es = Inl ValueError"
proof (induction es arbitrary: temp)
  case Nil
  then show ?case by simp
next
  case (Cons e es)
  show ?case
  proof (cases "e = entry")
    case True
    with Cons.prems show ?thesis
      by (auto simp: split_first_def split: if_splits)
  next
    case False
    with Cons.prems have "entry \<in> set es" by simp
    then have ih: "parse_entries pf keys t es = Inl ValueError" for t
      using Cons.IH Cons.prems(2,3) by blast
    show ?thesis
      by (simp add: ih split_first_def split: option.split)
  qed
qed

lemma split_on_nonempty_entry:
  "entry \<in> set (split_on c line) \<Longrightarrow> entry \<noteq> [] \<Longrightarrow> line \<noteq> []"
  by (cases line) auto

text \<open>
  Claim C1, as the code has it. The \<open>try\<close> encloses the whole line and \<open>float\<close> raises
  inside it, so a fragment whose value does not parse does not only lose that fragment:
  the parse of the line ends with ValueError and yields no pair at all, whatever the
  other fragments are and wherever the bad one stands.
\<close>

theorem bad_value_fails_whole_line:
  assumes "entry \<in> set (split_on CHR '','' line)"
    and "split_first CHR '':'' entry = Inr (k, v)"
    and "pf (strip v) = None"
  shows "parse_line pf keys line = Inl ValueError"
  using assms unfolding parse_line_def by (rule parse_entries_bad_value)

theorem bad_value_fails_whole_line_witness:
  "''current_speed:abc'' \<in> set (split_on CHR '','' ''target_speed:5,current_speed:abc'')
   \<and> split_first CHR '':'' ''current_speed:abc'' = Inr (''current_speed'', ''abc'')
   \<and> float_dec (strip ''abc'') = None
   \<and> parse_line float_dec [''current_speed'', ''current_duty'', ''target_speed'']
        ''target_speed:5,current_speed:abc'' = Inl ValueError"
proof -
  have h1: "''current_speed:abc'' \<in> set (split_on CHR '','' ''target_speed:5,current_speed:abc'')"
    by simp
  have h2: "split_first CHR '':'' ''current_speed:abc'' = Inr (''current_speed'', ''abc'')"
    by (simp add: split_first_def)
  have h3: "float_dec (strip ''abc'') = None"
    by (simp add: strip_def is_space_def float_dec_def digit_of_def)
  have c: "parse_line float_dec [''current_speed'', ''current_duty'', ''target_speed'']
        ''target_speed:5,current_speed:abc'' = Inl ValueError"
    by (rule bad_value_fails_whole_line [where pf = float_dec, OF h1 h2 h3])
  from h1 h2 h3 c show ?thesis by blast
qed

text \<open>
  The line of the claim: the parse does not yield the pair (target_speed, 5.0), and after
  the line the buffer of target_speed is still empty.
\<close>

theorem fragment_skip_counterexample:
  "parse_line float_dec (map fst (data_dict init_state)) ''current_speed:abc,target_speed:5''
     \<noteq> Inr [(''target_speed'', Fin 5)]
   \<and> dict_get (data_dict (ingest float_dec init_state
        [Decoded ''current_speed:abc,target_speed:5''])) ''target_speed'' = Inr []"
  by (simp add: eval_defs)

text \<open>
  Claim C10. A line in which the value of some fragment does not parse leaves the metric
  buffers and the sheet as they were: the body of the \<open>try\<close> raises ValueError before line
  140 is reached, the handler only prints.
\<close>

theorem bad_value_line_changes_nothing:
  assumes "entry \<in> set (split_on CHR '','' (strip raw))"
    and "split_first CHR '':'' entry = Inr (k, v)"
    and "pf (strip v) = None"
  shows "line_body pf s (Decoded raw) = (Some ValueError, s)
       \<and> ingest pf s [Decoded raw] = s\<lparr>printed := printed s @ [DataParseError ValueError]\<rparr>
       \<and> data_dict (ingest pf s [Decoded raw]) = data_dict s
       \<and> ws (ingest pf s [Decoded raw]) = ws s"
proof -
  from assms(2) have "entry \<noteq> []"
    by (auto simp: split_first_def split: if_splits)
  with assms(1) have ne: "strip raw \<noteq> []"
    by (rule split_on_nonempty_entry)
  have "parse_line pf (map fst (data_dict s)) (strip raw) = Inl ValueError"
    using assms unfolding parse_line_def by (rule parse_entries_bad_value)
  with ne have body: "line_body pf s (Decoded raw) = (Some ValueError, s)"
    by (simp add: line_body_def)
  then show ?thesis
    by (simp add: handle_exc_def)
qed

theorem bad_value_line_changes_nothing_witness:
  "''current_duty:x'' \<in> set (split_on CHR '','' (strip ''current_speed:1,current_duty:x''))
   \<and> split_first CHR '':'' ''current_duty:x'' = Inr (''current_duty'', ''x'')
   \<and> float_dec (strip ''x'') = None
   \<and> data_dict (ingest float_dec init_state [Decoded ''current_speed:1,current_duty:x''])
       = data_dict init_state
   \<and> ws (ingest float_dec init_state [Decoded ''current_speed:1,current_duty:x''])
       = ws init_state"
proof -
  have h1: "''current_duty:x'' \<in> set (split_on CHR '','' (strip ''current_speed:1,current_duty:x''))"
    by (simp add: strip_def is_space_def)
  have h2: "split_first CHR '':'' ''current_duty:x'' = Inr (''current_duty'', ''x'')"
    by (simp add: split_first_def)
  have h3: "float_dec (strip ''x'') = None"
    by (simp add: strip_def is_space_def float_dec_def digit_of_def)
  note c = bad_value_line_changes_nothing [where pf = float_dec and s = init_state, OF h1 h2 h3]
  from h1 h2 h3 c show ?thesis by blast
qed

text \<open>A line that is not blank and whose parse ends with an empty \<open>temp_data\<close> reaches
  \<open>ws.append(row_data)\<close> with an empty list.\<close>

lemma empty_temp_data_appends_blank_row:
  assumes "strip raw \<noteq> []"
    and "parse_line pf (map fst (data_dict s)) (strip raw) = Inr []"
  shows "ingest pf s [Decoded raw] = s\<lparr>ws := ws s @ [[]]\<rparr>"
  using assms by (simp add: line_body_def handle_exc_def)

section \<open>What a line, the loop and a tick leave unchanged\<close>

lemma parse_line_keys:
  assumes "parse_line pf keys line = Inr temp"
  shows "set (map fst temp) \<subseteq> set keys" and "distinct (map fst temp)"
  using assms parse_entries_keys [of pf keys "[]"] parse_entries_distinct [of pf keys "[]"]
  unfolding parse_line_def by auto

text \<open>What one line does to the state, in three cases.\<close>

lemma line_body_cases:
  obtains (raised) e where "line_body pf s l = (Some e, s)" "e = ValueError \<or> e = UnicodeDecodeError"
  | (blank) "line_body pf s l = (None, s)"
  | (stored) raw temp dd where "l = Decoded raw" "strip raw \<noteq> []"
      "parse_line pf (map fst (data_dict s)) (strip raw) = Inr temp"
      "store_loop (data_dict s) [] temp = (None, dd, map snd temp)"
      "map fst dd = map fst (data_dict s)"
      "line_body pf s l = (None, s\<lparr>data_dict := dd, ws := ws s @ [map Num (map snd temp)]\<rparr>)"
proof (cases l)
  case Undecodable
  then have "line_body pf s l = (Some UnicodeDecodeError, s)"
    by (simp add: line_body_def)
  then show ?thesis by (rule raised) simp
next
  case (Decoded raw)
  show ?thesis
  proof (cases "strip raw = []")
    case True
    with Decoded have "line_body pf s l = (None, s)"
      by (simp add: line_body_def)
    then show ?thesis by (rule blank)
  next
    case False
    show ?thesis
    proof (cases "parse_line pf (map fst (data_dict s)) (strip raw)")
      case (Inl e)
      then have "e = ValueError"
        unfolding parse_line_def by (rule parse_entries_error)
      moreover from Inl Decoded False have "line_body pf s l = (Some e, s)"
        by (simp add: line_body_def)
      ultimately show ?thesis using raised by blast
    next
      case (Inr temp)
      from parse_line_keys(1) [OF Inr] obtain dd
        where st: "store_loop (data_dict s) [] temp = (None, dd, map snd temp)"
          and keys: "map fst dd = map fst (data_dict s)"
        using store_loop_ok [of temp "data_dict s" "[]"] by auto
      from Inr Decoded False st
      have "line_body pf s l = (None, s\<lparr>data_dict := dd, ws := ws s @ [map Num (map snd temp)]\<rparr>)"
        by (simp add: line_body_def)
      with Decoded False Inr st keys show ?thesis by (rule stored)
    qed
  qed
qed

lemma handle_line_frame:
  "map fst (data_dict (handle_exc (line_body pf s l))) = map fst (data_dict s)
   \<and> paused (handle_exc (line_body pf s l)) = paused s
   \<and> (\<exists>rows. ws (handle_exc (line_body pf s l)) = ws s @ map (map Num) rows)"
proof (cases rule: line_body_cases [where pf = pf and s = s and l = l])
  case (raised e)
  then show ?thesis by (auto simp: handle_exc_def)
next
  case blank
  then show ?thesis by (auto simp: handle_exc_def)
next
  case (stored raw temp dd)
  then have "ws (handle_exc (line_body pf s l)) = ws s @ map (map Num) [map snd temp]"
    by (simp add: handle_exc_def)
  then have "\<exists>rows. ws (handle_exc (line_body pf s l)) = ws s @ map (map Num) rows" ..
  moreover from stored have "map fst (data_dict (handle_exc (line_body pf s l))) = map fst (data_dict s)"
    by (simp add: handle_exc_def)
  moreover from stored have "paused (handle_exc (line_body pf s l)) = paused s"
    by (simp add: handle_exc_def)
  ultimately show ?thesis by blast
qed

lemma ingest_append: "ingest pf s (xs @ ys) = ingest pf (ingest pf s xs) ys"
  by (induction xs arbitrary: s) auto

lemma ingest_frame:
  "map fst (data_dict (ingest pf s ls)) = map fst (data_dict s)
   \<and> paused (ingest pf s ls) = paused s
   \<and> (\<exists>rows. ws (ingest pf s ls) = ws s @ map (map Num) rows)"
proof (induction ls arbitrary: s)
  case Nil
  show ?case by simp
next
  case (Cons l ls)
  let ?s = "handle_exc (line_body pf s l)"
  from handle_line_frame [of pf s l] obtain r1
    where a: "map fst (data_dict ?s) = map fst (data_dict s)" "paused ?s = paused s"
      "ws ?s = ws s @ map (map Num) r1" by blast
  from Cons.IH [of ?s] obtain r2
    where b: "map fst (data_dict (ingest pf ?s ls)) = map fst (data_dict ?s)"
      "paused (ingest pf ?s ls) = paused ?s"
      "ws (ingest pf ?s ls) = ws ?s @ map (map Num) r2" by blast
  have "ws (ingest pf s (l # ls)) = ws s @ map (map Num) (r1 @ r2)"
    using a b by simp
  then have "\<exists>rows. ws (ingest pf s (l # ls)) = ws s @ map (map Num) rows" ..
  moreover have "map fst (data_dict (ingest pf s (l # ls))) = map fst (data_dict s)"
    using a b by simp
  moreover have "paused (ingest pf s (l # ls)) = paused s"
    using a b by simp
  ultimately show ?case by blast
qed

lemma py_min_nonempty: "xs \<noteq> [] \<Longrightarrow> \<exists>m. py_min lt xs = Inr m"
  by (cases xs) (auto simp: py_min_def)

lemma py_max_nonempty: "xs \<noteq> [] \<Longrightarrow> \<exists>m. py_max lt xs = Inr m"
  by (cases xs) (auto simp: py_max_def)

lemma y_limits_defined: "dd \<noteq> [] \<Longrightarrow> \<exists>lo hi. y_min dd = Inr lo \<and> y_max dd = Inr hi"
  using py_min_nonempty [of "map snd dd" list_lt] py_max_nonempty [of "map snd dd" list_lt]
  by (auto simp: y_min_def y_max_def)







text \<open>The rendering loop changes the axis limits only, and the only error it raises is the
  one of \<open>ax.set_ylim\<close>.\<close>

lemma render_loop_frame:
  "set keys \<subseteq> set (map fst (data_dict s)) \<Longrightarrow>
     data_dict (snd (render_loop s keys)) = data_dict s
     \<and> ws (snd (render_loop s keys)) = ws s
     \<and> paused (snd (render_loop s keys)) = paused s
     \<and> printed (snd (render_loop s keys)) = printed s"
proof (induction keys arbitrary: s)
  case Nil
  then show ?case by simp
next
  case (Cons key keys)
  then have key: "key \<in> set (map fst (data_dict s))" by simp
  then obtain y_data where y: "dict_get (data_dict s) key = Inr y_data"
    using dict_get_member by blast
  from key have "data_dict s \<noteq> []" by auto
  then obtain lo hi where lim: "y_min (data_dict s) = Inr lo" "y_max (data_dict s) = Inr hi"
    using y_limits_defined by blast
  let ?s = "s\<lparr>xlim := Some (0, real MAX_POINTS), ylim := Some (lo, hi)\<rparr>"
  from Cons.prems have sub: "set keys \<subseteq> set (map fst (data_dict s))" by simp
  then have sub': "set keys \<subseteq> set (map fst (data_dict ?s))" by simp
  show ?case
  proof (cases "y_data \<noteq> [] \<and> is_finite lo \<and> is_finite hi")
    case True
    with y lim have "render_loop s (key # keys) = render_loop ?s keys"
      by (simp add: Let_def)
    with Cons.IH [OF sub'] show ?thesis by simp
  next
    case False
    show ?thesis
    proof (cases "y_data = []")
      case True
      with y have "render_loop s (key # keys) = render_loop s keys" by simp
      with Cons.IH [OF sub] show ?thesis by simp
    next
      case nonempty: False
      with False y lim
      have "render_loop s (key # keys) = (Some ValueError, s\<lparr>xlim := Some (0, real MAX_POINTS)\<rparr>)"
        by (auto simp: Let_def)
      then show ?thesis by simp
    qed
  qed
qed



lemma update_plot_frame:
  "data_dict (snd (update_plot pf s ls)) = (if paused s then data_dict s else data_dict (ingest pf s ls))
   \<and> ws (snd (update_plot pf s ls)) = (if paused s then ws s else ws (ingest pf s ls))
   \<and> printed (snd (update_plot pf s ls))
       = (if paused s then printed s else printed (ingest pf s ls))
   \<and> paused (snd (update_plot pf s ls)) = paused s"
proof (cases "paused s")
  case True
  then show ?thesis by (simp add: update_plot_def)
next
  case False
  let ?s = "ingest pf s ls"
  have sub: "set (map fst (data_dict ?s)) \<subseteq> set (map fst (data_dict ?s))" by simp
  have u: "update_plot pf s ls = render_loop ?s (map fst (data_dict ?s))"
    using False by (simp add: update_plot_def Let_def)
  have "paused ?s = paused s"
    using ingest_frame [of pf s ls] by blast
  with render_loop_frame [OF sub] False show ?thesis
    by (simp only: u if_False simp_thms)
qed



section \<open>Ticks\<close>

text \<open>
  Claim C5. While \<open>paused\<close> is true, a tick returns at line 122 before it reads the
  transport: whatever lines are waiting, the state after the tick is the state before it
  (every buffer of \<open>data_dict\<close> and every row of \<open>ws\<close> included), and so it is after
  any number of ticks.
\<close>

theorem paused_tick_changes_nothing:
  assumes "paused s"
  shows "update_plot pf s ls = (None, s) \<and> run pf s (map Tick lss) = ([], s)"
proof -
  from assms have one: "update_plot pf s l = (None, s)" for l
    by (simp add: update_plot_def)
  have "run pf s (map Tick lss) = ([], s)"
    by (induction lss) (simp_all add: one)
  with one show ?thesis by simp
qed

theorem paused_tick_changes_nothing_witness:
  "paused (pause init_state)
   \<and> update_plot float_dec (pause init_state) [Decoded ''current_speed:5''] = (None, pause init_state)
   \<and> run float_dec (pause init_state) (map Tick [[Decoded ''current_speed:5''], [Decoded ''target_speed:7'']])
       = ([], pause init_state)"
proof -
  have h: "paused (pause init_state)"
    by (simp add: pause_def)
  note c = paused_tick_changes_nothing [OF h, of float_dec "[Decoded ''current_speed:5'']"
      "[[Decoded ''current_speed:5''], [Decoded ''target_speed:7'']]"]
  from h c show ?thesis by blast
qed




text \<open>A line that stores an infinity: the loop keeps it, and the tick ends with the
  ValueError of \<open>ax.set_ylim\<close>, the value and the row in place.\<close>

lemma tick_raises_on_infinite_limit:
  "update_plot float_dec init_state [Decoded ''current_speed:inf'']
   = (Some ValueError,
      init_state\<lparr>data_dict := [(''current_speed'', [PosInf]), (''current_duty'', []),
                                (''target_speed'', [])],
                  ws := ws init_state @ [[Num PosInf]],
                  xlim := Some (0, 100)\<rparr>)"
  by (simp add: eval_defs)

lemma step_frame:
  "map fst (data_dict (snd (step pf s e))) = map fst (data_dict s)
   \<and> (\<exists>rows. ws (snd (step pf s e)) = ws s @ map (map Num) rows)"
proof (cases e)
  case (Tick ls)
  note f = update_plot_frame [of pf s ls] and g = ingest_frame [of pf s ls]
  have "ws s = ws s @ map (map Num) []" by simp
  then have "\<exists>rows. ws s = ws s @ map (map Num) rows" ..
  with f g have "\<exists>rows. ws (snd (update_plot pf s ls)) = ws s @ map (map Num) rows"
    by (cases "paused s") simp_all
  moreover from f g have "map fst (data_dict (snd (update_plot pf s ls))) = map fst (data_dict s)"
    by (cases "paused s") simp_all
  ultimately show ?thesis using Tick by simp
next
  case Pause
  have "ws (pause s) = ws s @ map (map Num) []" by (simp add: pause_def)
  then have "\<exists>rows. ws (pause s) = ws s @ map (map Num) rows" ..
  with Pause show ?thesis by (simp add: pause_def)
next
  case Resume
  have "ws (resume s) = ws s @ map (map Num) []" by (simp add: resume_def)
  then have "\<exists>rows. ws (resume s) = ws s @ map (map Num) rows" ..
  with Resume show ?thesis by (simp add: resume_def)
qed

lemma run_frame:
  "map fst (data_dict (snd (run pf s evs))) = map fst (data_dict s)
   \<and> (\<exists>rows. ws (snd (run pf s evs)) = ws s @ map (map Num) rows)"
proof (induction evs arbitrary: s)
  case Nil
  have "ws s = ws s @ map (map Num) []" by simp
  then have "\<exists>rows. ws s = ws s @ map (map Num) rows" ..
  then show ?case by simp
next
  case (Cons e evs)
  let ?s1 = "snd (step pf s e)"
  have r: "snd (run pf s (e # evs)) = snd (run pf ?s1 evs)"
    by (simp split: prod.splits)
  from step_frame [of pf s e] obtain r1 where s1:
    "map fst (data_dict ?s1) = map fst (data_dict s)" "ws ?s1 = ws s @ map (map Num) r1" by blast
  from Cons.IH [of ?s1] obtain r2 where s2:
    "map fst (data_dict (snd (run pf ?s1 evs))) = map fst (data_dict ?s1)"
    "ws (snd (run pf ?s1 evs)) = ws ?s1 @ map (map Num) r2" by blast
  have "ws (snd (run pf ?s1 evs)) = ws s @ map (map Num) (r1 @ r2)"
    using s1 s2 by simp
  then have "ws (snd (run pf s (e # evs))) = ws s @ map (map Num) (r1 @ r2)"
    by (simp only: r)
  then have "\<exists>rows. ws (snd (run pf s (e # evs))) = ws s @ map (map Num) rows" ..
  moreover have "map fst (data_dict (snd (run pf ?s1 evs))) = map fst (data_dict s)"
    using s1 s2 by simp
  then have "map fst (data_dict (snd (run pf s (e # evs)))) = map fst (data_dict s)"
    by (simp only: r)
  ultimately show ?case by blast
qed

text \<open>
  Claim C8. The module writes the header row, the keys of \<open>data_dict\<close> in their order,
  before any tick runs; after any sequence of ticks, pauses and resumes, whether the ticks
  returned or raised, the sheet is that header followed by rows of numbers only, and the
  keys of \<open>data_dict\<close> are still the same three names in the same order.
\<close>

theorem header_is_first_row:
  "ws init_state = [[Str ''current_speed'', Str ''current_duty'', Str ''target_speed'']]
   \<and> map fst (data_dict (snd (run pf init_state evs)))
       = [''current_speed'', ''current_duty'', ''target_speed'']
   \<and> (\<exists>rows. ws (snd (run pf init_state evs))
         = [Str ''current_speed'', Str ''current_duty'', Str ''target_speed'']
             # map (map Num) rows)"
proof -
  have w: "ws init_state = [[Str ''current_speed'', Str ''current_duty'', Str ''target_speed'']]"
    and k: "map fst (data_dict init_state) = [''current_speed'', ''current_duty'', ''target_speed'']"
    by (simp_all add: init_state_def init_data_dict_def)
  from run_frame [of pf init_state evs] obtain rows where r:
    "map fst (data_dict (snd (run pf init_state evs))) = map fst (data_dict init_state)"
    "ws (snd (run pf init_state evs)) = ws init_state @ map (map Num) rows" by blast
  from r(1) k have 1: "map fst (data_dict (snd (run pf init_state evs)))
      = [''current_speed'', ''current_duty'', ''target_speed'']"
    by simp
  from r(2) w
  have "ws (snd (run pf init_state evs))
      = [Str ''current_speed'', Str ''current_duty'', Str ''target_speed''] # map (map Num) rows"
    by simp
  then have 2: "\<exists>rows. ws (snd (run pf init_state evs))
      = [Str ''current_speed'', Str ''current_duty'', Str ''target_speed''] # map (map Num) rows" ..
  from w 1 2 show ?thesis by (simp only: simp_thms)
qed

section \<open>The rolling buffers\<close>

lemma length_lastn: "length (lastn n xs) = min (length xs) n"
  by (simp add: lastn_def)

lemma lastn_snoc: "lastn n (lastn n xs @ [v]) = lastn n (xs @ [v])"
  by (cases "length xs \<le> n") (auto simp: lastn_def Suc_diff_le)

lemma push_point_lastn:
  assumes "length b \<le> MAX_POINTS"
  shows "push_point b v = lastn MAX_POINTS (b @ [v])"
proof (cases "length b = MAX_POINTS")
  case True
  then have "length (b @ [v]) - MAX_POINTS = Suc 0" by simp
  then have "lastn MAX_POINTS (b @ [v]) = drop (Suc 0) (b @ [v])"
    unfolding lastn_def by (rule arg_cong)
  also have "\<dots> = tl (b @ [v])"
    by (simp only: drop_Suc drop_0)
  also from True have "\<dots> = push_point b v"
    by (simp add: push_point_def Let_def)
  finally show ?thesis by simp
next
  case False
  with assms have "length b < MAX_POINTS" by simp
  then show ?thesis
    by (simp add: push_point_def lastn_def Let_def)
qed

lemma foldl_push_point:
  "length b \<le> MAX_POINTS \<Longrightarrow> foldl push_point b vs = lastn MAX_POINTS (b @ vs)"
proof (induction vs rule: rev_induct)
  case Nil
  then show ?case by (simp add: lastn_def)
next
  case (snoc v vs)
  have "length (lastn MAX_POINTS (b @ vs)) \<le> MAX_POINTS"
    by (simp add: length_lastn)
  then have "push_point (lastn MAX_POINTS (b @ vs)) v = lastn MAX_POINTS (lastn MAX_POINTS (b @ vs) @ [v])"
    by (rule push_point_lastn)
  also have "\<dots> = lastn MAX_POINTS ((b @ vs) @ [v])"
    by (rule lastn_snoc)
  finally show ?case using snoc by simp
qed

lemma push_point_full: "length b = MAX_POINTS \<Longrightarrow> push_point b v = tl b @ [v]"
  by (cases b) (auto simp: push_point_def Let_def MAX_POINTS_def)

lemma push_point_room: "length b < MAX_POINTS \<Longrightarrow> push_point b v = b @ [v]"
  by (simp add: push_point_def Let_def)

lemma store_loop_buffer:
  "set (map fst temp) \<subseteq> set (map fst dd) \<Longrightarrow> distinct (map fst temp) \<Longrightarrow>
   store_loop dd row_data temp = (e, dd', row') \<Longrightarrow>
   map_of dd' m = (case map_of temp m of
                     None \<Rightarrow> map_of dd m
                   | Some v \<Rightarrow> map_option (\<lambda>b. push_point b v) (map_of dd m))"
proof (induction temp arbitrary: dd row_data)
  case Nil
  then show ?case by simp
next
  case (Cons p temp)
  obtain k v where p: "p = (k, v)" by (cases p)
  with Cons.prems have k: "k \<in> set (map fst dd)" by simp
  then obtain buf where buf: "dict_get dd k = Inr buf" "map_of dd k = Some buf"
    using dict_get_member by blast
  let ?dd = "dict_set dd k (push_point buf v)"
  have keys: "map fst ?dd = map fst dd"
    using k by (simp add: dict_set_keys)
  from Cons.prems p have sub: "set (map fst temp) \<subseteq> set (map fst ?dd)"
    and dist: "distinct (map fst temp)" and notin: "k \<notin> set (map fst temp)"
    by (simp_all add: keys)
  from Cons.prems(3) p buf have run: "store_loop ?dd (row_data @ [v]) temp = (e, dd', row')"
    by simp
  note ih = Cons.IH [OF sub dist run]
  from notin have none: "map_of temp k = None"
    by (simp add: map_of_eq_None_iff)
  show ?case
  proof (cases "m = k")
    case True
    with ih none p buf show ?thesis by (simp add: map_of_dict_set split: option.splits)
  next
    case False
    with ih p show ?thesis by (simp add: map_of_dict_set split: option.splits)
  qed
qed

lemma dict_get_Inr: "dict_get d k = Inr b \<longleftrightarrow> map_of d k = Some b"
  by (cases "map_of d k") (simp_all add: dict_get_def)

lemma handle_line_buffer:
  assumes "map_of (data_dict s) m = Some b"
  shows "map_of (data_dict (handle_exc (line_body pf s l))) m
       = Some (foldl push_point b (line_values pf (map fst (data_dict s)) m l))"
proof (cases l)
  case Undecodable
  with assms show ?thesis
    by (simp add: line_body_def handle_exc_def line_values_def)
next
  case (Decoded raw)
  show ?thesis
  proof (cases "strip raw = []")
    case True
    with assms Decoded show ?thesis
      by (simp add: line_body_def handle_exc_def line_values_def)
  next
    case False
    show ?thesis
    proof (cases "parse_line pf (map fst (data_dict s)) (strip raw)")
      case (Inl e)
      then have "e = ValueError"
        unfolding parse_line_def by (rule parse_entries_error)
      with assms Decoded False Inl show ?thesis
        by (simp add: line_body_def handle_exc_def line_values_def)
    next
      case (Inr temp)
      note keys = parse_line_keys [OF Inr]
      from keys(1) obtain dd where st: "store_loop (data_dict s) [] temp = (None, dd, map snd temp)"
        using store_loop_ok [of temp "data_dict s" "[]"] by auto
      from store_loop_buffer [OF keys st, of m] assms
      have "map_of dd m = Some (foldl push_point b (case map_of temp m of None \<Rightarrow> [] | Some v \<Rightarrow> [v]))"
        by (simp split: option.splits)
      with Decoded False Inr st show ?thesis
        by (simp add: line_body_def handle_exc_def line_values_def)
    qed
  qed
qed

lemma ingest_buffer:
  "map_of (data_dict s) m = Some b \<Longrightarrow>
   map_of (data_dict (ingest pf s ls)) m
     = Some (foldl push_point b (accepted_values pf (map fst (data_dict s)) m ls))"
proof (induction ls arbitrary: s b)
  case Nil
  then show ?case by (simp add: accepted_values_def)
next
  case (Cons l ls)
  let ?s = "handle_exc (line_body pf s l)"
  let ?b = "foldl push_point b (line_values pf (map fst (data_dict s)) m l)"
  have keys: "map fst (data_dict ?s) = map fst (data_dict s)"
    using handle_line_frame [of pf s l] by blast
  have "map_of (data_dict ?s) m = Some ?b"
    using Cons.prems by (rule handle_line_buffer)
  from Cons.IH [OF this] keys show ?case
    by (simp add: accepted_values_def)
qed

text \<open>
  Claim C2. Started from the initial state and fed any sequence of lines, the buffer of a
  recognized metric holds the most recent \<open>MAX_POINTS\<close> of the values accepted for it,
  in arrival order: \<open>min N MAX_POINTS\<close> entries after \<open>N\<close> accepted values, never more
  than \<open>MAX_POINTS\<close>. One more line that supplies a value appends it, and drops the oldest
  entry exactly when the buffer was full.
\<close>

theorem fifo_window:
  assumes "m \<in> set (map fst init_data_dict)"
  shows "\<exists>buf. dict_get (data_dict (ingest pf init_state ls)) m = Inr buf
      \<and> buf = lastn MAX_POINTS (accepted_values pf (map fst init_data_dict) m ls)
      \<and> length buf = min (length (accepted_values pf (map fst init_data_dict) m ls)) MAX_POINTS
      \<and> length buf \<le> MAX_POINTS
      \<and> (\<forall>l v. line_values pf (map fst init_data_dict) m l = [v] \<longrightarrow>
           dict_get (data_dict (ingest pf init_state (ls @ [l]))) m
             = Inr (if length buf = MAX_POINTS then tl buf @ [v] else buf @ [v]))"
proof -
  let ?keys = "map fst init_data_dict"
  let ?acc = "accepted_values pf ?keys m ls"
  let ?buf = "lastn MAX_POINTS ?acc"
  let ?s = "ingest pf init_state ls"
  have dd: "data_dict init_state = init_data_dict"
    by (simp add: init_state_def)
  from assms have start: "map_of (data_dict init_state) m = Some []"
    by (auto simp: dd init_data_dict_def)
  have "map_of (data_dict ?s) m = Some (foldl push_point [] ?acc)"
    using ingest_buffer [OF start, of pf ls] by (simp add: dd)
  then have now: "map_of (data_dict ?s) m = Some ?buf"
    by (simp add: foldl_push_point)
  have len: "length ?buf = min (length ?acc) MAX_POINTS"
    by (simp add: length_lastn)
  have keys: "map fst (data_dict ?s) = ?keys"
    using ingest_frame [of pf init_state ls] by (simp add: dd)
  have next_line: "dict_get (data_dict (ingest pf init_state (ls @ [l]))) m
      = Inr (if length ?buf = MAX_POINTS then tl ?buf @ [v] else ?buf @ [v])"
    if v: "line_values pf ?keys m l = [v]" for l v
  proof -
    have "map_of (data_dict (handle_exc (line_body pf ?s l))) m = Some (push_point ?buf v)"
      using handle_line_buffer [OF now, of pf l] v by (simp add: keys)
    moreover have "push_point ?buf v = (if length ?buf = MAX_POINTS then tl ?buf @ [v] else ?buf @ [v])"
    proof (cases "length ?buf = MAX_POINTS")
      case True
      then show ?thesis by (simp add: push_point_full)
    next
      case False
      with len have "length ?buf < MAX_POINTS" by simp
      with False show ?thesis by (simp add: push_point_room)
    qed
    ultimately show ?thesis
      by (simp add: ingest_append dict_get_Inr)
  qed
  from now have "dict_get (data_dict ?s) m = Inr ?buf"
    by (simp add: dict_get_Inr)
  moreover from len have "length ?buf \<le> MAX_POINTS" by simp
  ultimately show ?thesis using len next_line by blast
qed

theorem fifo_window_witness:
  "''current_speed'' \<in> set (map fst init_data_dict)
   \<and> dict_get (data_dict (ingest float_dec init_state
        [Decoded ''current_speed:1,target_speed:9'', Decoded ''current_duty:x'',
         Decoded ''current_speed:2''])) ''current_speed'' = Inr [Fin 1, Fin 2]"
proof -
  let ?ls = "[Decoded ''current_speed:1,target_speed:9'', Decoded ''current_duty:x'',
         Decoded ''current_speed:2'']"
  have h: "''current_speed'' \<in> set (map fst init_data_dict)"
    by (simp add: init_data_dict_def)
  from fifo_window [OF h, of float_dec ?ls]
  have "dict_get (data_dict (ingest float_dec init_state ?ls)) ''current_speed''
      = Inr (lastn MAX_POINTS (accepted_values float_dec (map fst init_data_dict) ''current_speed'' ?ls))"
    by blast
  moreover have "lastn MAX_POINTS (accepted_values float_dec (map fst init_data_dict) ''current_speed'' ?ls)
      = [Fin 1, Fin 2]"
    by (simp add: eval_defs lastn_def accepted_values_def line_values_def)
  ultimately show ?thesis using h by simp
qed

text \<open>Feeding \<open>MAX_POINTS + 1\<close> values to an empty buffer leaves all but the first.\<close>

lemma overflow_drops_first:
  assumes "length vs = Suc MAX_POINTS"
  shows "foldl push_point [] vs = tl vs"
proof -
  have "foldl push_point [] vs = lastn MAX_POINTS vs"
    using foldl_push_point [of "[]" vs] by simp
  also from assms have "\<dots> = drop (Suc 0) vs"
    by (simp add: lastn_def)
  also have "\<dots> = tl vs"
    by (simp only: drop_Suc drop_0)
  finally show ?thesis .
qed

text \<open>
  The same across ticks. What a line does to the buffers depends on the buffers only, so
  after any sequence of ticks, pauses and resumes the buffers are what the loop makes of
  all the lines that the ticks read, and the buffer of a metric is the most recent
  \<open>MAX_POINTS\<close> of the values accepted from them.
\<close>

lemma handle_line_data_dict:
  "data_dict (handle_exc (line_body pf s l))
     = (case l of
          Undecodable \<Rightarrow> data_dict s
        | Decoded raw \<Rightarrow>
            if strip raw = [] then data_dict s
            else (case parse_line pf (map fst (data_dict s)) (strip raw) of
                    Inl e \<Rightarrow> data_dict s
                  | Inr temp \<Rightarrow> fst (snd (store_loop (data_dict s) [] temp))))"
  by (simp add: line_body_def handle_exc_def Let_def
      split: raw_line.split sum.split prod.split option.split)

lemma handle_line_data_dict_cong:
  assumes "data_dict s = data_dict t"
  shows "data_dict (handle_exc (line_body pf s l)) = data_dict (handle_exc (line_body pf t l))"
  by (simp only: handle_line_data_dict assms)

lemma ingest_data_dict_cong:
  "data_dict s = data_dict t \<Longrightarrow> data_dict (ingest pf s ls) = data_dict (ingest pf t ls)"
proof (induction ls arbitrary: s t)
  case Nil
  then show ?case by simp
next
  case (Cons l ls)
  from Cons.IH [OF handle_line_data_dict_cong [OF Cons.prems, of pf l]] show ?case
    by simp
qed

lemma step_data_dict:
  "data_dict (snd (step pf s e)) = data_dict (ingest pf s (consumed (paused s) [e]))"
proof (cases e)
  case (Tick ls)
  with update_plot_frame [of pf s ls] show ?thesis by simp
next
  case Pause
  then show ?thesis by (simp add: pause_def)
next
  case Resume
  then show ?thesis by (simp add: resume_def)
qed

lemma step_paused:
  "paused (snd (step pf s e)) = (case e of Tick ls \<Rightarrow> paused s | Pause \<Rightarrow> True | Resume \<Rightarrow> False)"
proof (cases e)
  case (Tick ls)
  with update_plot_frame [of pf s ls] show ?thesis by simp
next
  case Pause
  then show ?thesis by (simp add: pause_def)
next
  case Resume
  then show ?thesis by (simp add: resume_def)
qed

lemma run_data_dict:
  "data_dict (snd (run pf s evs)) = data_dict (ingest pf s (consumed (paused s) evs))"
proof (induction evs arbitrary: s)
  case Nil
  show ?case by simp
next
  case (Cons e evs)
  let ?s1 = "snd (step pf s e)"
  have r: "snd (run pf s (e # evs)) = snd (run pf ?s1 evs)"
    by (simp split: prod.splits)
  have c: "consumed (paused s) (e # evs) = consumed (paused s) [e] @ consumed (paused ?s1) evs"
    using step_paused [of pf s e] by (cases e) (simp_all del: step.simps)
  have "data_dict (snd (run pf ?s1 evs)) = data_dict (ingest pf ?s1 (consumed (paused ?s1) evs))"
    by (rule Cons.IH)
  also have "\<dots> = data_dict (ingest pf (ingest pf s (consumed (paused s) [e])) (consumed (paused ?s1) evs))"
    by (rule ingest_data_dict_cong) (rule step_data_dict)
  also have "\<dots> = data_dict (ingest pf s (consumed (paused s) (e # evs)))"
    by (simp only: c ingest_append)
  finally show ?case by (simp only: r)
qed

lemma fifo_window_across_ticks:
  assumes "m \<in> set (map fst init_data_dict)"
  shows "dict_get (data_dict (snd (run pf init_state evs))) m
       = Inr (lastn MAX_POINTS
               (accepted_values pf (map fst init_data_dict) m (consumed False evs)))"
proof -
  have dd: "data_dict init_state = init_data_dict" and np: "paused init_state = False"
    by (simp_all add: init_state_def)
  from assms have start: "map_of (data_dict init_state) m = Some []"
    by (auto simp: dd init_data_dict_def)
  have "map_of (data_dict (ingest pf init_state (consumed False evs))) m
      = Some (foldl push_point [] (accepted_values pf (map fst init_data_dict) m (consumed False evs)))"
    using ingest_buffer [OF start, of pf "consumed False evs"] by (simp add: dd)
  then show ?thesis
    by (simp add: run_data_dict np dict_get_Inr foldl_push_point)
qed

section \<open>The export rows\<close>

text \<open>\<open>temp_data\<close> is what the assignments \<open>temp_data[key] = value\<close> make of the
  recognized pairs of the line, taken in their order.\<close>

lemma parse_entries_fold:
  "parse_entries pf keys temp es = Inr t \<Longrightarrow>
     t = foldl (\<lambda>d (k, x). dict_set d k x) temp (concat (map (entry_pair pf keys) es))"
proof (induction es arbitrary: temp)
  case Nil
  then show ?case by simp
next
  case (Cons entry es)
  show ?case
  proof (cases "CHR '':'' \<in> set entry")
    case False
    with Cons.prems have "parse_entries pf keys temp es = Inr t" by simp
    from Cons.IH [OF this] False show ?thesis
      by (simp add: entry_pair_def split_first_def)
  next
    case True
    let ?k = "strip (takeWhile (\<lambda>x. x \<noteq> CHR '':'') entry)"
    let ?v = "strip (tl (dropWhile (\<lambda>x. x \<noteq> CHR '':'') entry))"
    from True Cons.prems obtain x where x: "pf ?v = Some x"
      by (cases "pf ?v") (simp_all add: split_first_def)
    show ?thesis
    proof (cases "?k \<in> set keys")
      case in_keys: True
      with True x Cons.prems have "parse_entries pf keys (dict_set temp ?k x) es = Inr t"
        by (simp add: split_first_def)
      from Cons.IH [OF this] True x in_keys show ?thesis
        by (simp add: entry_pair_def split_first_def)
    next
      case not_in_keys: False
      with True x Cons.prems have "parse_entries pf keys temp es = Inr t"
        by (simp add: split_first_def)
      from Cons.IH [OF this] True x not_in_keys show ?thesis
        by (simp add: entry_pair_def split_first_def)
    qed
  qed
qed

lemma set_first_seen: "set (first_seen xs) = set xs"
  by (simp add: first_seen_def)

lemma first_seen_snoc:
  "first_seen (xs @ [k]) = (if k \<in> set xs then first_seen xs else first_seen xs @ [k])"
  by (simp add: first_seen_def)

lemma fold_dict_set_keys:
  "map fst (foldl (\<lambda>d (k, x). dict_set d k x) [] ps) = first_seen (map fst ps)"
proof (induction ps rule: rev_induct)
  case Nil
  show ?case by (simp add: first_seen_def)
next
  case (snoc p ps)
  obtain k x where p: "p = (k, x)" by (cases p)
  let ?t = "foldl (\<lambda>d (k, x). dict_set d k x) [] ps"
  have mem: "k \<in> set (map fst ?t) \<longleftrightarrow> k \<in> set (map fst ps)"
    by (simp only: snoc.IH set_first_seen)
  have "map fst (foldl (\<lambda>d (k, x). dict_set d k x) [] (ps @ [p])) = map fst (dict_set ?t k x)"
    by (simp add: p)
  also have "\<dots> = (if k \<in> set (map fst ps) then map fst ?t else map fst ?t @ [k])"
    by (simp only: dict_set_keys mem)
  also have "\<dots> = (if k \<in> set (map fst ps) then first_seen (map fst ps)
                     else first_seen (map fst ps) @ [k])"
    by (simp only: snoc.IH)
  also have "\<dots> = first_seen (map fst ps @ [k])"
    by (simp only: first_seen_snoc)
  also have "\<dots> = first_seen (map fst (ps @ [p]))"
    by (simp add: p)
  finally show ?case .
qed

lemma fold_dict_set_map_of:
  "map_of (foldl (\<lambda>d (k, x). dict_set d k x) [] ps) = map_of (rev ps)"
proof (induction ps rule: rev_induct)
  case Nil
  show ?case by simp
next
  case (snoc p ps)
  obtain k x where p: "p = (k, x)" by (cases p)
  from snoc p show ?case
    by (simp add: map_of_dict_set)
qed

lemma map_filter_cong_set:
  "(\<And>x. x \<in> set xs \<Longrightarrow> f x = g x) \<Longrightarrow> List.map_filter f xs = List.map_filter g xs"
proof (induction xs)
  case Nil
  show ?case by (simp add: List.map_filter_simps)
next
  case (Cons a xs)
  have "f a = g a"
    by (rule Cons.prems) simp
  moreover have "List.map_filter f xs = List.map_filter g xs"
    by (rule Cons.IH) (simp add: Cons.prems)
  ultimately show ?case
    by (simp add: List.map_filter_simps split: option.split)
qed

lemma map_filter_map_of_keys:
  "distinct (map fst t) \<Longrightarrow> List.map_filter (map_of t) (map fst t) = map snd t"
proof (induction t)
  case Nil
  show ?case by (simp add: List.map_filter_simps)
next
  case (Cons p t)
  obtain k x where p: "p = (k, x)" by (cases p)
  with Cons.prems have notin: "k \<notin> set (map fst t)" and dist: "distinct (map fst t)"
    by simp_all
  have same: "List.map_filter (map_of (p # t)) (map fst t) = List.map_filter (map_of t) (map fst t)"
  proof (rule map_filter_cong_set)
    fix y assume "y \<in> set (map fst t)"
    with notin have "y \<noteq> k" by auto
    with p show "map_of (p # t) y = map_of t y" by simp
  qed
  have "map_of (p # t) k = Some x"
    by (simp add: p)
  then have "List.map_filter (map_of (p # t)) (k # map fst t)
      = x # List.map_filter (map_of (p # t)) (map fst t)"
    by (simp only: List.map_filter_simps option.case)
  also have "\<dots> = x # map snd t"
    by (simp only: same Cons.IH [OF dist])
  finally have "List.map_filter (map_of (p # t)) (k # map fst t) = x # map snd t" .
  moreover have "map fst (p # t) = k # map fst t" and "map snd (p # t) = x # map snd t"
    by (simp_all add: p)
  ultimately show ?case by (simp only:)
qed

text \<open>What a stored line does to the sheet.\<close>

lemma line_body_stored:
  assumes "line_body pf s (Decoded raw) = (None, s')" and "strip raw \<noteq> []"
  obtains temp where "parse_line pf (map fst (data_dict s)) (strip raw) = Inr temp"
    and "ws s' = ws s @ [map Num (map snd temp)]"
    and "distinct (map fst temp)"
    and "map fst temp = first_seen (map fst (line_pairs pf (map fst (data_dict s)) (strip raw)))"
    and "map snd temp = encounter_row (line_pairs pf (map fst (data_dict s)) (strip raw))"
proof (cases "parse_line pf (map fst (data_dict s)) (strip raw)")
  case (Inl e)
  with assms show ?thesis by (simp add: line_body_def)
next
  case (Inr temp)
  let ?ps = "line_pairs pf (map fst (data_dict s)) (strip raw)"
  note keys = parse_line_keys [OF Inr]
  from keys(1) obtain dd where st: "store_loop (data_dict s) [] temp = (None, dd, map snd temp)"
    using store_loop_ok [of temp "data_dict s" "[]"] by auto
  with assms Inr have w: "ws s' = ws s @ [map Num (map snd temp)]"
    by (auto simp: line_body_def)
  from Inr have temp: "temp = foldl (\<lambda>d (k, x). dict_set d k x) [] ?ps"
    unfolding parse_line_def line_pairs_def by (rule parse_entries_fold)
  then have k: "map fst temp = first_seen (map fst ?ps)"
    by (simp add: fold_dict_set_keys)
  from temp have m: "map_of temp = map_of (rev ?ps)"
    by (simp add: fold_dict_set_map_of)
  have "encounter_row ?ps = List.map_filter (map_of temp) (map fst temp)"
    by (simp add: encounter_row_def k m)
  also have "\<dots> = map snd temp"
    using keys(2) by (rule map_filter_map_of_keys)
  finally have r: "map snd temp = encounter_row ?ps" by simp
  from Inr w keys(2) k r show ?thesis by (rule that)
qed

text \<open>
  Claim C4, as the code has it. The row of a stored line is built by the loop over
  \<open>temp_data.items()\<close>, and a dict keeps its keys in the order of their first insertion:
  the values stand in the order in which their metrics first occur on the line, each
  metric with the last value the line gives for it. The order of the keys of
  \<open>data_dict\<close> plays no part.
\<close>

theorem row_in_encounter_order:
  assumes "line_body pf s (Decoded raw) = (None, s')" and "strip raw \<noteq> []"
  shows "ws s' = ws s @ [map Num (encounter_row (line_pairs pf (map fst (data_dict s)) (strip raw)))]"
proof (rule line_body_stored [OF assms])
  fix temp
  assume "ws s' = ws s @ [map Num (map snd temp)]"
    and "map snd temp = encounter_row (line_pairs pf (map fst (data_dict s)) (strip raw))"
  then show ?thesis by (simp only:)
qed

theorem row_in_encounter_order_witness:
  "line_body float_dec init_state (Decoded ''target_speed:5,current_speed:1,target_speed:6'')
     = (None, init_state\<lparr>data_dict := [(''current_speed'', [Fin 1]), (''current_duty'', []),
                                          (''target_speed'', [Fin 6])],
                            ws := ws init_state @ [[Num (Fin 6), Num (Fin 1)]]\<rparr>)
   \<and> strip ''target_speed:5,current_speed:1,target_speed:6'' \<noteq> []
   \<and> map Num (encounter_row (line_pairs float_dec (map fst (data_dict init_state))
         (strip ''target_speed:5,current_speed:1,target_speed:6''))) = [Num (Fin 6), Num (Fin 1)]"
proof -
  let ?raw = "''target_speed:5,current_speed:1,target_speed:6''"
  let ?s' = "init_state\<lparr>data_dict := [(''current_speed'', [Fin 1]), (''current_duty'', []),
                                          (''target_speed'', [Fin 6])],
                            ws := ws init_state @ [[Num (Fin 6), Num (Fin 1)]]\<rparr>"
  have h1: "line_body float_dec init_state (Decoded ?raw) = (None, ?s')"
    by (simp add: eval_defs)
  have h2: "strip ?raw \<noteq> []"
    by (simp add: strip_def is_space_def)
  from row_in_encounter_order [OF h1 h2]
  have "map Num (encounter_row (line_pairs float_dec (map fst (data_dict init_state)) (strip ?raw)))
      = [Num (Fin 6), Num (Fin 1)]"
    by simp
  with h1 h2 show ?thesis by (simp only: simp_thms)
qed

text \<open>
  A line that names target_speed before current_speed: the row is 5, 1, while the fixed
  ordering of the metric names would give 1, 5.
\<close>

theorem fixed_order_counterexample:
  "last (ws (ingest float_dec init_state [Decoded ''target_speed:5,current_speed:1'']))
     = [Num (Fin 5), Num (Fin 1)]
   \<and> parse_line float_dec (map fst (data_dict init_state)) ''target_speed:5,current_speed:1''
     = Inr [(''target_speed'', Fin 5), (''current_speed'', Fin 1)]
   \<and> map Num (fixed_order_row (map fst (data_dict init_state))
        [(''target_speed'', Fin 5), (''current_speed'', Fin 1)]) = [Num (Fin 1), Num (Fin 5)]"
  by (simp add: eval_defs fixed_order_row_def List.map_filter_simps)

text \<open>
  Claim C3, as the code has it. The keys of \<open>data_dict\<close> are the three metric names in
  every state the program reaches (\<open>run_frame\<close>, \<open>ingest_frame\<close>). In every such state,
  the row that a stored line appends has one cell for each distinct recognized metric the
  line supplies, so its width is the number of those metrics: at most three, and not
  always three.
\<close>

theorem row_width_is_supplied_metrics:
  assumes "map fst (data_dict s) = map fst init_data_dict"
    and "line_body pf s (Decoded raw) = (None, s')" and "strip raw \<noteq> []"
  shows "ws s' = ws s @ [last (ws s')]
       \<and> length (last (ws s')) = card (fst ` set (line_pairs pf (map fst init_data_dict) (strip raw)))
       \<and> length (last (ws s')) \<le> 3"
proof (rule line_body_stored [OF assms(2,3)])
  fix temp
  let ?keys = "map fst init_data_dict"
  let ?ps = "line_pairs pf ?keys (strip raw)"
  note keys = assms(1)
  assume p: "parse_line pf (map fst (data_dict s)) (strip raw) = Inr temp"
    and w: "ws s' = ws s @ [map Num (map snd temp)]"
    and d: "distinct (map fst temp)"
    and k: "map fst temp = first_seen (map fst (line_pairs pf (map fst (data_dict s)) (strip raw)))"
  from w have l: "last (ws s') = map Num (map snd temp)" by simp
  have len: "length temp = card (set (map fst temp))"
    using distinct_card [OF d] by simp
  have "set (map fst temp) = fst ` set ?ps"
    by (simp add: k keys set_first_seen)
  with len have width: "length (last (ws s')) = card (fst ` set ?ps)"
    by (simp add: l)
  from parse_line_keys(1) [OF p] have "set (map fst temp) \<subseteq> set ?keys"
    by (simp only: keys)
  then have "card (set (map fst temp)) \<le> card (set ?keys)"
    by (rule card_mono [rotated]) simp
  also have "\<dots> \<le> 3"
    by (simp add: init_data_dict_def)
  finally have "length (last (ws s')) \<le> 3"
    by (simp add: l len)
  with w l width show ?thesis by simp
qed

text \<open>The witness is a state after a tick that stored a value and set the axis limits.\<close>

theorem row_width_is_supplied_metrics_witness:
  "map fst (data_dict (snd (update_plot float_dec init_state [Decoded ''current_duty:4''])))
     = map fst init_data_dict
   \<and> line_body float_dec (snd (update_plot float_dec init_state [Decoded ''current_duty:4'']))
       (Decoded ''current_speed:1,current_speed:2,target_speed:3'')
     = (None, init_state\<lparr>data_dict := [(''current_speed'', [Fin 2]), (''current_duty'', [Fin 4]),
                                          (''target_speed'', [Fin 3])],
                            ws := ws init_state @ [[Num (Fin 4)], [Num (Fin 2), Num (Fin 3)]],
                            xlim := Some (0, 100), ylim := Some (Fin (- 10), Fin 14)\<rparr>)
   \<and> strip ''current_speed:1,current_speed:2,target_speed:3'' \<noteq> []
   \<and> card (fst ` set (line_pairs float_dec (map fst init_data_dict)
         (strip ''current_speed:1,current_speed:2,target_speed:3''))) = 2"
proof -
  let ?raw = "''current_speed:1,current_speed:2,target_speed:3''"
  let ?s = "snd (update_plot float_dec init_state [Decoded ''current_duty:4''])"
  let ?s' = "init_state\<lparr>data_dict := [(''current_speed'', [Fin 2]), (''current_duty'', [Fin 4]),
                                          (''target_speed'', [Fin 3])],
                            ws := ws init_state @ [[Num (Fin 4)], [Num (Fin 2), Num (Fin 3)]],
                            xlim := Some (0, 100), ylim := Some (Fin (- 10), Fin 14)\<rparr>"
  have h0: "map fst (data_dict ?s) = map fst init_data_dict"
    by (simp add: eval_defs)
  have h1: "line_body float_dec ?s (Decoded ?raw) = (None, ?s')"
    by (simp add: eval_defs)
  have h2: "strip ?raw \<noteq> []"
    by (simp add: strip_def is_space_def)
  from row_width_is_supplied_metrics [OF h0 h1 h2]
  have "card (fst ` set (line_pairs float_dec (map fst init_data_dict) (strip ?raw))) = 2"
    by simp
  with h0 h1 h2 show ?thesis by (simp only: simp_thms)
qed

text \<open>
  A line that supplies one metric appends a row of one cell, not of three.
\<close>

theorem constant_width_counterexample:
  "last (ws (ingest float_dec init_state [Decoded ''current_speed:1''])) = [Num (Fin 1)]
   \<and> length (last (ws (ingest float_dec init_state [Decoded ''current_speed:1''])))
       \<noteq> length (data_dict init_state)"
  by (simp add: eval_defs)

text \<open>When every value of the line parses, so does the line.\<close>

lemma parse_entries_total:
  "\<forall>entry \<in> set es. \<forall>k v. split_first CHR '':'' entry = Inr (k, v) \<longrightarrow> pf (strip v) \<noteq> None \<Longrightarrow>
     \<exists>t. parse_entries pf keys temp es = Inr t"
proof (induction es arbitrary: temp)
  case Nil
  show ?case by simp
next
  case (Cons entry es)
  then have ih: "\<exists>t. parse_entries pf keys u es = Inr t" for u
    by simp
  show ?case
  proof (cases "CHR '':'' \<in> set entry")
    case False
    with ih [of temp] show ?thesis by simp
  next
    case True
    let ?k = "takeWhile (\<lambda>x. x \<noteq> CHR '':'') entry"
    let ?v = "tl (dropWhile (\<lambda>x. x \<noteq> CHR '':'') entry)"
    from True have sf: "split_first CHR '':'' entry = Inr (?k, ?v)"
      by (simp add: split_first_def)
    with Cons.prems obtain x where x: "pf (strip ?v) = Some x"
      by (cases "pf (strip ?v)") auto
    from True sf x ih [of temp] ih [of "dict_set temp (strip ?k) x"] show ?thesis
      by simp
  qed
qed

text \<open>
  Claim C9, as the code has it. A decoded line that is not empty after \<open>strip\<close>, in which
  every value parses and which yields no recognized pair (only unrecognized keys, or no
  fragment with a colon), still reaches \<open>ws.append(row_data)\<close> with an empty list: the
  sheet gains a blank row and nothing else changes. Rows appended later stand below the
  blank row.
\<close>

theorem numeric_line_without_pairs_appends_blank_row:
  assumes "strip raw \<noteq> []"
    and "\<forall>entry \<in> set (split_on CHR '','' (strip raw)).
           \<forall>k v. split_first CHR '':'' entry = Inr (k, v) \<longrightarrow> pf (strip v) \<noteq> None"
    and "line_pairs pf (map fst (data_dict s)) (strip raw) = []"
  shows "ingest pf s [Decoded raw] = s\<lparr>ws := ws s @ [[]]\<rparr>"
proof -
  from parse_entries_total [OF assms(2)] obtain t
    where t: "parse_line pf (map fst (data_dict s)) (strip raw) = Inr t"
    unfolding parse_line_def by blast
  then have "t = foldl (\<lambda>d (k, x). dict_set d k x) []
      (line_pairs pf (map fst (data_dict s)) (strip raw))"
    unfolding parse_line_def line_pairs_def by (rule parse_entries_fold)
  with assms(3) have "t = []" by simp
  with t have "parse_line pf (map fst (data_dict s)) (strip raw) = Inr []" by simp
  with assms(1) show ?thesis by (rule empty_temp_data_appends_blank_row)
qed

theorem numeric_line_without_pairs_appends_blank_row_witness:
  "strip ''foo:1.0,hello'' \<noteq> []
   \<and> line_pairs float_dec (map fst (data_dict init_state)) (strip ''foo:1.0,hello'') = []
   \<and> ingest float_dec init_state [Decoded ''foo:1.0,hello''] = init_state\<lparr>ws := ws init_state @ [[]]\<rparr>
   \<and> ws (ingest float_dec init_state [Decoded ''foo:1.0,hello'', Decoded ''current_speed:1''])
       = ws init_state @ [[], [Num (Fin 1)]]"
proof -
  have h1: "strip ''foo:1.0,hello'' \<noteq> []"
    by (simp add: strip_def is_space_def)
  have h2: "\<forall>entry \<in> set (split_on CHR '','' (strip ''foo:1.0,hello'')).
           \<forall>k v. split_first CHR '':'' entry = Inr (k, v) \<longrightarrow> float_dec (strip v) \<noteq> None"
    by (simp add: eval_defs)
  have h3: "line_pairs float_dec (map fst (data_dict init_state)) (strip ''foo:1.0,hello'') = []"
    by (simp add: eval_defs line_pairs_def entry_pair_def)
  note c = numeric_line_without_pairs_appends_blank_row [where pf = float_dec, OF h1 h2 h3]
  have later: "ws (ingest float_dec init_state [Decoded ''foo:1.0,hello'', Decoded ''current_speed:1''])
       = ws init_state @ [[], [Num (Fin 1)]]"
    by (simp add: eval_defs)
  from h1 h3 c later show ?thesis by (simp only: simp_thms)
qed

text \<open>
  A line with an unrecognized key only, whose value does not parse: it yields no
  recognized pair, and no row is appended.
\<close>

theorem unparsed_value_appends_no_row_counterexample:
  "strip ''foo:abc'' \<noteq> []
   \<and> line_pairs float_dec (map fst (data_dict init_state)) (strip ''foo:abc'') = []
   \<and> ws (ingest float_dec init_state [Decoded ''foo:abc'']) = ws init_state"
  by (simp add: eval_defs line_pairs_def entry_pair_def)

section \<open>The y-axis range\<close>

text \<open>
  Claim C6, at a concrete tick. After the two lines below the buffers are
  \<open>[1, 100]\<close>, \<open>[2, -50]\<close> and \<open>[3, 3]\<close>: the smallest stored value is \<open>-50\<close> and the
  largest is \<open>100\<close>, so the claim gives the range \<open>(-60, 110)\<close>. The code takes \<open>min\<close> and
  \<open>max\<close> of the three lists first, which compares them as lists: the smallest list is
  \<open>[1, 100]\<close> and the largest \<open>[3, 3]\<close>, and the range it sets is \<open>(1 - 10, 3 + 10)\<close>.
\<close>

theorem y_limits_come_from_one_list:
  "update_plot float_dec init_state
     [Decoded ''current_speed:1,current_duty:2,target_speed:3'',
      Decoded ''current_speed:100,current_duty:-50,target_speed:3'']
   = (None,
      init_state\<lparr>data_dict := [(''current_speed'', [Fin 1, Fin 100]),
                                (''current_duty'', [Fin 2, Fin (- 50)]),
                                (''target_speed'', [Fin 3, Fin 3])],
                  ws := ws init_state @ [[Num (Fin 1), Num (Fin 2), Num (Fin 3)],
                                         [Num (Fin 100), Num (Fin (- 50)), Num (Fin 3)]],
                  xlim := Some (0, 100), ylim := Some (Fin (- 9), Fin 13)\<rparr>)"
  by (simp add: eval_defs)

text \<open>While some buffer is still empty, the smallest list is the empty one and the lower
  limit is \<open>0 - 10\<close>, whatever the stored values are.\<close>

lemma y_min_with_an_empty_buffer:
  "update_plot float_dec init_state [Decoded ''current_speed:5'']
   = (None,
      init_state\<lparr>data_dict := [(''current_speed'', [Fin 5]), (''current_duty'', []),
                                (''target_speed'', [])],
                  ws := ws init_state @ [[Num (Fin 5)]],
                  xlim := Some (0, 100), ylim := Some (Fin (- 10), Fin 15)\<rparr>)"
  by (simp add: eval_defs)

end
